theory Spec2Isabelle
  imports Complex_Main "HOL-Library.Log_Nat"
begin

section \<open>JavaScript numbers\<close>

text \<open>
  Every number of the program is an ECMAScript Number, an IEEE 754 binary64 value, and
  every arithmetic operator rounds its exact result to the nearest such value, ties to
  the value with an even significand. A finite Number is modelled by its exact value, a
  rational; an operation is the exact operation followed by \<open>rnd\<close>.

  The model covers the finite values. The program never produces anything else from the
  states it can reach: every division is guarded against a zero divisor
  (\<open>n === 0\<close>, \<open>std === 0\<close>, \<open>total > 0\<close>), the square root is taken of
  a non-negative quotient, and all magnitudes stay far below \<open>2 ^ 1024\<close>, where
  rounding would overflow to \<open>Infinity\<close>. Negative zero compares equal to zero under
  \<open>===\<close> and \<open><\<close> and is not distinguished.
\<close>

type_synonym number = rat

text \<open>\<open>ilog2 x\<close> is the binary exponent of \<open>x \<noteq> 0\<close>: the \<open>k\<close> with \<open>2 ^ k \<le> \<bar>x\<bar> < 2 ^ (k + 1)\<close>.\<close>

definition ilog2 :: "rat \<Rightarrow> int" where
  "ilog2 x = (let a = \<bar>x\<bar> in
     if 1 \<le> a then bitlen \<lfloor>a\<rfloor> - 1 else - bitlen (\<lceil>1 / a\<rceil> - 1))"

text \<open>Rounding to the nearest integer, ties to even.\<close>

definition rne :: "rat \<Rightarrow> int" where
  "rne q = (let f = \<lfloor>q\<rfloor>; d = q - of_int f in
     if d < 1 / 2 then f else if 1 / 2 < d then f + 1
     else if even f then f else f + 1)"

text \<open>
  The exponent of the unit in the last place: 53 significant bits for a normal value,
  the fixed spacing \<open>2 ^ -1074\<close> for a subnormal one.
\<close>

definition ulp_exp :: "rat \<Rightarrow> int" where
  "ulp_exp x = max (ilog2 x - 52) (- 1074)"

definition rnd :: "rat \<Rightarrow> number" where
  "rnd x = (let e = ulp_exp x in of_int (rne (x / 2 powi e)) * 2 powi e)"

text \<open>The values that rounding returns: the Numbers, as long as the magnitude is below \<open>2 ^ 1024\<close>.\<close>

definition is_double :: "rat \<Rightarrow> bool" where
  "is_double x = (rnd x = x)"

definition fadd :: "number \<Rightarrow> number \<Rightarrow> number" where
  "fadd a b = rnd (a + b)"

definition fsub :: "number \<Rightarrow> number \<Rightarrow> number" where
  "fsub a b = rnd (a - b)"

definition fmul :: "number \<Rightarrow> number \<Rightarrow> number" where
  "fmul a b = rnd (a * b)"

definition fdiv :: "number \<Rightarrow> number \<Rightarrow> number" where
  "fdiv a b = rnd (a / b)"

text \<open>
  \<open>Math.PI\<close> is the Number nearest to \<open>\<pi>\<close>, \<open>0x1.921fb54442d18p+1\<close>.
\<close>

definition Math_PI :: number where
  "Math_PI = 884279719003555 / 2 ^ 48"

text \<open>
  \<open>Math.sqrt\<close> is the correctly rounded square root. \<open>isqrt\<close> is the integer
  square root, computed two bits at a time; \<open>Math_sqrt\<close> scales its argument so that
  the root has 53 bits before the binary point, takes the integer root and rounds on the
  comparison with the midpoint. It is specified for \<open>x \<ge> 0\<close> (the program never
  passes a negative argument, for which JavaScript returns \<open>NaN\<close>).
\<close>

function isqrt :: "int \<Rightarrow> int" where
  "isqrt n = (if n < 4 then (if n \<le> 0 then 0 else 1)
     else let r = 2 * isqrt (n div 4) in if (r + 1) * (r + 1) \<le> n then r + 1 else r)"
  by pat_completeness auto
termination
  by (relation "measure nat") auto

declare isqrt.simps [simp del]

definition Math_sqrt :: "number \<Rightarrow> number" where
  "Math_sqrt x = (if x \<le> 0 then 0 else
     let e = ilog2 x div 2 - 52;
         y = x / 2 powi (2 * e);
         f = isqrt \<lfloor>y\<rfloor>;
         h = (of_int f + 1 / 2) * (of_int f + 1 / 2);
         m = (if y < h then f else if h < y then f + 1 else if even f then f else f + 1)
     in of_int m * 2 powi e)"

section \<open>The class \<open>MonteCarloPi\<close>\<close>

text \<open>
  The canvas is modelled by the list of drawing commands issued since it was last
  cleared. A text label carries the number that the source formats into it
  (\<open>toFixed\<close> only affects the printed digits).
\<close>

datatype label =
    TotalLabel number
  | InsideLabel number
  | EstimateLabel number
  | DeviationLabel number

datatype draw =
    StrokeRect number number number number
  | StrokeArc number number number
  | FillArc number number bool
  | FillRect nat nat nat nat
  | FillText label nat nat

text \<open>
  The object's fields. The field \<open>total\<close> of the source is named \<open>total_count\<close>
  here. \<open>pauseBtn\<close> holds the button's \<open>textContent\<close> and \<open>slider\<close> the
  slider's value, an integer between 0 and 1000. \<open>timeoutId\<close> is \<open>None\<close> for
  \<open>null\<close>. The host's table of pending timeouts, pairs of an identifier and a delay,
  and its next free identifier are kept beside the fields as \<open>timers\<close> and
  \<open>nextTimer\<close>.
\<close>

record MonteCarloPi =
  squareSize :: number
  offset :: number
  radius :: number
  centerX :: number
  centerY :: number
  isRunning :: bool
  timeoutId :: "nat option"
  pauseBtn :: string
  total_count :: number
  inside :: number
  slider :: nat
  canvas :: "draw list"
  timers :: "(nat \<times> nat) list"
  nextTimer :: nat

text \<open>
  The field initialisers, as a function of the two literals \<open>squareSize = 500\<close> and
  \<open>offset = 50\<close> from which the other geometry fields are computed.
\<close>

definition MonteCarloPi_fields :: "number \<Rightarrow> number \<Rightarrow> MonteCarloPi" where
  "MonteCarloPi_fields sq off =
     \<lparr> squareSize = sq, offset = off, radius = fdiv sq 2,
       centerX = fadd off (fdiv sq 2), centerY = fadd off (fdiv sq 2),
       isRunning = False, timeoutId = None, pauseBtn = [],
       total_count = 0, inside = 0,
       slider = 0, canvas = [], timers = [], nextTimer = 0 \<rparr>"

definition setupCanvas :: "MonteCarloPi \<Rightarrow> MonteCarloPi" where
  "setupCanvas s = s\<lparr>canvas := []\<rparr>"

definition drawBoard :: "MonteCarloPi \<Rightarrow> MonteCarloPi" where
  "drawBoard s = s\<lparr>canvas := canvas s @
     [StrokeRect (offset s) (offset s) (squareSize s) (squareSize s),
      StrokeArc (centerX s) (centerY s) (radius s)]\<rparr>"

definition setupUI :: "MonteCarloPi \<Rightarrow> MonteCarloPi" where
  "setupUI s = s\<lparr>slider := 500, pauseBtn := ''Pause''\<rparr>"

text \<open>\<open>setTimeout\<close> registers a pending timeout and returns its identifier.\<close>

definition setTimeout :: "nat \<Rightarrow> MonteCarloPi \<Rightarrow> nat \<times> MonteCarloPi" where
  "setTimeout delay s =
     (nextTimer s, s\<lparr>timers := timers s @ [(nextTimer s, delay)], nextTimer := nextTimer s + 1\<rparr>)"

definition clearTimeout :: "nat \<Rightarrow> MonteCarloPi \<Rightarrow> MonteCarloPi" where
  "clearTimeout i s = s\<lparr>timers := filter (\<lambda>t. fst t \<noteq> i) (timers s)\<rparr>"

definition drawDot :: "number \<Rightarrow> number \<Rightarrow> bool \<Rightarrow> MonteCarloPi \<Rightarrow> MonteCarloPi" where
  "drawDot x y isIn s = s\<lparr>canvas := canvas s @ [FillArc x y isIn]\<rparr>"

definition computeZScore :: "MonteCarloPi \<Rightarrow> number" where
  "computeZScore s =
     (let p = fdiv Math_PI 4;
          n = total_count s
      in if n = 0 then 0
         else let observed = fdiv (inside s) n;
                  std = Math_sqrt (fdiv (fmul p (fsub 1 p)) n)
              in if std = 0 then 0 else fdiv (fsub observed p) std)"

text \<open>The local constant \<open>piEstimate\<close> of \<open>drawStats\<close>.\<close>

definition piEstimate :: "MonteCarloPi \<Rightarrow> number" where
  "piEstimate s = fmul (fdiv (inside s) (total_count s)) 4"

definition drawStats :: "MonteCarloPi \<Rightarrow> MonteCarloPi" where
  "drawStats s = s\<lparr>canvas := canvas s @
     [FillRect 0 0 600 40,
      FillText (TotalLabel (total_count s)) 50 20,
      FillText (InsideLabel (inside s)) 50 38] @
     (if 0 < total_count s
      then [FillText (EstimateLabel (piEstimate s)) 200 20,
            FillText (DeviationLabel (computeZScore s)) 200 38]
      else [])\<rparr>"

text \<open>
  The two sampling lines of \<open>animate\<close>,
  \<open>Math.random() * this.squareSize + this.offset\<close>, as a function of the value
  \<open>r\<close> that \<open>Math.random()\<close> returned; and its classification lines
  (\<open>dx\<close>, \<open>dy\<close>, \<open>isInside\<close>).
\<close>

definition coordinate :: "MonteCarloPi \<Rightarrow> number \<Rightarrow> number" where
  "coordinate s r = fadd (fmul r (squareSize s)) (offset s)"

definition isInside :: "MonteCarloPi \<Rightarrow> number \<Rightarrow> number \<Rightarrow> bool" where
  "isInside s x y =
     (let dx = fsub x (centerX s);
          dy = fsub y (centerY s)
      in fadd (fmul dx dx) (fmul dy dy) < fmul (radius s) (radius s))"

text \<open>
  One tick. \<open>u\<close> and \<open>v\<close> are the two values drawn from \<open>Math.random()\<close>.
\<close>

definition animate :: "number \<Rightarrow> number \<Rightarrow> MonteCarloPi \<Rightarrow> MonteCarloPi" where
  "animate u v s =
     (if \<not> isRunning s then s
      else let interval = slider s;
               x = coordinate s u;
               y = coordinate s v;
               isIn = isInside s x y;
               s1 = drawDot x y isIn s;
               s2 = s1\<lparr>total_count := fadd (total_count s1) 1\<rparr>;
               s3 = (if isIn then s2\<lparr>inside := fadd (inside s2) 1\<rparr> else s2);
               s4 = drawStats s3;
               (i, s5) = setTimeout interval s4
           in s5\<lparr>timeoutId := Some i\<rparr>)"

text \<open>
  The \<open>animate\<close> of the file \<open>pi.js\<close>, which has the same body without the
  \<open>isRunning\<close> test and does not keep the timer's identifier.
\<close>

definition animate_pi_js :: "number \<Rightarrow> number \<Rightarrow> MonteCarloPi \<Rightarrow> MonteCarloPi" where
  "animate_pi_js u v s =
     (let interval = slider s;
          x = coordinate s u;
          y = coordinate s v;
          isIn = isInside s x y;
          s1 = drawDot x y isIn s;
          s2 = s1\<lparr>total_count := fadd (total_count s1) 1\<rparr>;
          s3 = (if isIn then s2\<lparr>inside := fadd (inside s2) 1\<rparr> else s2);
          s4 = drawStats s3
      in snd (setTimeout interval s4))"

definition pause :: "MonteCarloPi \<Rightarrow> MonteCarloPi" where
  "pause s =
     (let s1 = s\<lparr>isRunning := False\<rparr>;
          s2 = (case timeoutId s1 of None \<Rightarrow> s1 | Some i \<Rightarrow> clearTimeout i s1)
      in s2\<lparr>pauseBtn := ''Resume''\<rparr>)"

definition resume :: "number \<Rightarrow> number \<Rightarrow> MonteCarloPi \<Rightarrow> MonteCarloPi" where
  "resume u v s =
     (if \<not> isRunning s
      then animate u v (s\<lparr>isRunning := True, pauseBtn := ''Pause''\<rparr>)
      else s)"

definition reset :: "MonteCarloPi \<Rightarrow> MonteCarloPi" where
  "reset s =
     (let s1 = pause s;
          s2 = s1\<lparr>total_count := 0\<rparr>;
          s3 = s2\<lparr>inside := 0\<rparr>;
          s4 = s3\<lparr>canvas := []\<rparr>
      in drawStats (drawBoard s4))"

definition constructor :: "bool \<Rightarrow> number \<Rightarrow> number \<Rightarrow> MonteCarloPi \<Rightarrow> MonteCarloPi" where
  "constructor autoStart u v s =
     (let s1 = setupUI (drawBoard (setupCanvas s))
      in if autoStart then animate u v (s1\<lparr>isRunning := True\<rparr>) else s1)"



definition simulation :: "number \<Rightarrow> number \<Rightarrow> MonteCarloPi" where
  "simulation u v = constructor True u v (MonteCarloPi_fields 500 50)"

subsection \<open>The event loop\<close>

text \<open>
  After construction the object changes only in event handlers, which run one at a time:
  a pending timeout fires and calls \<open>animate\<close>, the pause button or the reset button
  is clicked, or the slider is moved. A timeout fires only while it is pending, and is
  removed from the host's table when it does.
\<close>

datatype event =
    Timeout nat number number
  | PauseClick number number
  | ResetClick
  | SliderInput nat

fun step :: "event \<Rightarrow> MonteCarloPi \<Rightarrow> MonteCarloPi" where
  "step (Timeout i u v) s =
     (if i \<in> fst ` set (timers s) then animate u v (clearTimeout i s) else s)"
| "step (PauseClick u v) s = (if isRunning s then pause s else resume u v s)"
| "step ResetClick s = reset s"
| "step (SliderInput x) s = s\<lparr>slider := x\<rparr>"

fun run :: "event list \<Rightarrow> MonteCarloPi \<Rightarrow> MonteCarloPi" where
  "run [] s = s"
| "run (e # es) s = run es (step e s)"

fun is_click :: "event \<Rightarrow> bool" where
  "is_click (PauseClick u v) = True"
| "is_click e = False"

fun no_click :: "event list \<Rightarrow> bool" where
  "no_click [] = True"
| "no_click (e # es) = (\<not> is_click e \<and> no_click es)"

subsection \<open>State predicates\<close>

text \<open>The invariant of the counters.\<close>

definition acc_inv :: "MonteCarloPi \<Rightarrow> bool" where
  "acc_inv s = (0 \<le> inside s \<and> inside s \<le> total_count s)"


text \<open>
  At most one tick is pending: while running, exactly the timeout that \<open>timeoutId\<close>
  names; while paused, none.
\<close>

definition one_loop :: "MonteCarloPi \<Rightarrow> bool" where
  "one_loop s =
     (if isRunning s
      then (case timeoutId s of None \<Rightarrow> False | Some i \<Rightarrow> map fst (timers s) = [i])
      else timers s = [])"

section \<open>Properties of rounding\<close>

subsection \<open>Binary exponent\<close>

lemma powi_nat: "0 \<le> k \<Longrightarrow> (2::rat) powi k = 2 ^ nat k"
  by (simp add: power_int_def)

lemma powi_mono: "k \<le> l \<Longrightarrow> (2::rat) powi k \<le> 2 powi l"
  by (rule power_int_increasing) simp_all

lemma powi_pos: "0 < (2::rat) powi k"
  by simp

lemma ilog2_bounds_ge1:
  assumes "1 \<le> (x::rat)"
  shows "2 powi (bitlen \<lfloor>x\<rfloor> - 1) \<le> x" and "x < 2 powi (bitlen \<lfloor>x\<rfloor>)"
proof -
  let ?n = "\<lfloor>x\<rfloor>"
  from assms have n: "0 < ?n" by simp
  from bitlen_bounds[OF n] have lo: "2 ^ nat (bitlen ?n - 1) \<le> ?n" and hi: "?n < 2 ^ nat (bitlen ?n)"
    by simp_all
  have b1: "1 \<le> bitlen ?n" using n by (simp add: bitlen_alt_def)
  have "(2::rat) powi (bitlen ?n - 1) = of_int (2 ^ nat (bitlen ?n - 1))"
    using b1 by (simp add: powi_nat)
  also have "\<dots> \<le> of_int ?n" using lo by (simp only: of_int_le_iff)
  also have "\<dots> \<le> x" by simp
  finally show "2 powi (bitlen ?n - 1) \<le> x" .
  have "?n + 1 \<le> 2 ^ nat (bitlen ?n)" using hi by simp
  then have "(of_int (?n + 1) :: rat) \<le> of_int (2 ^ nat (bitlen ?n))" by (simp only: of_int_le_iff)
  moreover have "x < of_int (?n + 1)" by linarith
  ultimately have "x < of_int (2 ^ nat (bitlen ?n))" by linarith
  then show "x < 2 powi (bitlen ?n)" using b1 by (simp add: powi_nat)
qed

lemma ilog2_bounds_lt1:
  assumes "0 < (x::rat)" "x < 1"
  shows "2 powi (- bitlen (\<lceil>1 / x\<rceil> - 1)) \<le> x" and "x < 2 powi (- bitlen (\<lceil>1 / x\<rceil> - 1) + 1)"
proof -
  let ?n = "\<lceil>1 / x\<rceil> - 1"
  have inv: "1 < 1 / x" using assms by simp
  then have n: "0 < ?n" by linarith
  from bitlen_bounds[OF n] have lo: "2 ^ nat (bitlen ?n - 1) \<le> ?n" and hi: "?n < 2 ^ nat (bitlen ?n)"
    by simp_all
  have b1: "1 \<le> bitlen ?n" using n by (simp add: bitlen_alt_def)
  have nlt: "of_int ?n < 1 / x" by linarith
  have nge: "1 / x \<le> of_int (?n + 1)" by linarith
  have "?n + 1 \<le> 2 ^ nat (bitlen ?n)" using hi by simp
  then have "(of_int (?n + 1) :: rat) \<le> of_int (2 ^ nat (bitlen ?n))" by (simp only: of_int_le_iff)
  with nge have "1 / x \<le> of_int (2 ^ nat (bitlen ?n))" by linarith
  then have "1 / x \<le> 2 ^ nat (bitlen ?n)" by simp
  then have "1 / x \<le> 2 powi (bitlen ?n)" using b1 by (simp add: powi_nat)
  then have "1 \<le> 2 powi (bitlen ?n) * x" using assms(1) by (simp add: field_simps)
  then show "2 powi (- bitlen ?n) \<le> x"
    by (simp add: power_int_minus field_simps)
  have "(of_int (2 ^ nat (bitlen ?n - 1)) :: rat) \<le> of_int ?n" using lo by (simp only: of_int_le_iff)
  with nlt have "of_int (2 ^ nat (bitlen ?n - 1)) < 1 / x" by linarith
  then have "2 ^ nat (bitlen ?n - 1) < 1 / x" by simp
  then have "2 powi (bitlen ?n - 1) < 1 / x" using b1 by (simp add: powi_nat)
  then have "2 powi (bitlen ?n - 1) * x < 1" using assms(1) by (simp add: field_simps)
  then have "x < inverse (2 powi (bitlen ?n - 1))"
    by (simp add: field_simps)
  also have "inverse ((2::rat) powi (bitlen ?n - 1)) = 2 powi (- (bitlen ?n - 1))"
    by (simp only: power_int_minus)
  finally show "x < 2 powi (- bitlen ?n + 1)"
    by simp
qed

lemma ilog2_bounds:
  assumes "0 < x"
  shows "2 powi ilog2 x \<le> x" and "x < 2 powi (ilog2 x + 1)"
  using assms ilog2_bounds_ge1[of x] ilog2_bounds_lt1[of x]
  by (auto simp: ilog2_def Let_def)

lemma powi_less_cancel: "(2::rat) powi k < 2 powi l \<Longrightarrow> k < l"
  using powi_mono[of l k] by (cases "k < l") auto

lemma ilog2_unique:
  assumes "0 < x" "2 powi k \<le> x" "x < 2 powi (k + 1)"
  shows "ilog2 x = k"
proof -
  have "2 powi k < (2::rat) powi (ilog2 x + 1)" using assms ilog2_bounds[of x] by linarith
  then have "k < ilog2 x + 1" by (rule powi_less_cancel)
  moreover have "2 powi ilog2 x < (2::rat) powi (k + 1)" using assms ilog2_bounds[of x] by linarith
  then have "ilog2 x < k + 1" by (rule powi_less_cancel)
  ultimately show ?thesis by simp
qed

lemma ilog2_mono:
  assumes "0 < x" "x \<le> y"
  shows "ilog2 x \<le> ilog2 y"
proof -
  have "2 powi ilog2 x < (2::rat) powi (ilog2 y + 1)"
    using assms ilog2_bounds[of x] ilog2_bounds[of y] by linarith
  then have "ilog2 x < ilog2 y + 1" by (rule powi_less_cancel)
  then show ?thesis by simp
qed

lemma ilog2_ge: "0 < x \<Longrightarrow> 2 powi k \<le> x \<Longrightarrow> k \<le> ilog2 x"
  using ilog2_bounds(2)[of x] powi_less_cancel[of k "ilog2 x + 1"] by force

lemma ilog2_abs: "ilog2 (- x) = ilog2 x"
  by (simp add: ilog2_def)

subsection \<open>Rounding to an integer\<close>

lemma rne_of_int: "rne (of_int k) = k"
  by (simp add: rne_def)

lemma rne_le: "q \<le> of_int k \<Longrightarrow> rne q \<le> k"
proof -
  assume h: "q \<le> of_int k"
  have fl: "\<lfloor>q\<rfloor> \<le> k" using h by (simp add: floor_le_iff) 
  show ?thesis
  proof (cases "\<lfloor>q\<rfloor> = k")
    case True
    then have "q - of_int \<lfloor>q\<rfloor> < 1 / 2" using h by linarith
    with True show ?thesis by (simp add: rne_def Let_def)
  next
    case False
    with fl have "\<lfloor>q\<rfloor> + 1 \<le> k" by simp
    then show ?thesis by (auto simp: rne_def Let_def)
  qed
qed

lemma rne_ge: "of_int k \<le> q \<Longrightarrow> k \<le> rne q"
proof -
  assume h: "of_int k \<le> q"
  then have "k \<le> \<lfloor>q\<rfloor>" by (simp add: le_floor_iff)
  then show ?thesis by (auto simp: rne_def Let_def)
qed

lemma rne_mono: "q \<le> q' \<Longrightarrow> rne q \<le> rne q'"
proof -
  assume h: "q \<le> q'"
  have fl: "\<lfloor>q\<rfloor> \<le> \<lfloor>q'\<rfloor>" using h by (rule floor_mono)
  show ?thesis
  proof (cases "\<lfloor>q\<rfloor> = \<lfloor>q'\<rfloor>")
    case True
    then have "q - of_int \<lfloor>q\<rfloor> \<le> q' - of_int \<lfloor>q'\<rfloor>" using h by simp
    with True show ?thesis by (auto simp: rne_def Let_def)
  next
    case False
    with fl have "\<lfloor>q\<rfloor> + 1 \<le> \<lfloor>q'\<rfloor>" by simp
    then have "of_int (\<lfloor>q\<rfloor> + 1) \<le> q'" by (simp add: le_floor_iff)
    then have a: "\<lfloor>q\<rfloor> + 1 \<le> rne q'" by (rule rne_ge)
    have "q \<le> of_int (\<lfloor>q\<rfloor> + 1)" by linarith
    then have "rne q \<le> \<lfloor>q\<rfloor> + 1" by (rule rne_le)
    with a show ?thesis by simp
  qed
qed

lemma rne_near: "\<bar>of_int (rne q) - q\<bar> \<le> 1 / 2"
proof -
  have "of_int \<lfloor>q\<rfloor> \<le> q" "q < of_int \<lfloor>q\<rfloor> + 1" by linarith+
  then show ?thesis by (auto simp: rne_def Let_def)
qed

lemma rne_neg: "rne (- q) = - rne q"
proof (cases "q = of_int \<lfloor>q\<rfloor>")
  case True
  then obtain k where "q = of_int k" ..
  then have "rne (- q) = rne (of_int (- k))" by simp
  also have "\<dots> = - k" by (rule rne_of_int)
  finally show ?thesis using \<open>q = of_int k\<close> by (simp add: rne_of_int)
next
  case False
  then have "of_int \<lfloor>q\<rfloor> < q" by (metis of_int_floor_le order_le_less)
  moreover have "q < of_int \<lfloor>q\<rfloor> + 1" by linarith
  ultimately have fl: "\<lfloor>- q\<rfloor> = - \<lfloor>q\<rfloor> - 1" by (simp add: floor_unique)
  show ?thesis
    unfolding rne_def Let_def fl by (auto simp: algebra_simps)
qed

subsection \<open>Rounding to a Number\<close>

lemma ulp_exp_ge: "- 1074 \<le> ulp_exp x"
  by (simp add: ulp_exp_def)

lemma ulp_exp_neg: "ulp_exp (- x) = ulp_exp x"
  by (simp add: ulp_exp_def ilog2_abs)

lemma ulp_exp_mono: "0 < x \<Longrightarrow> x \<le> y \<Longrightarrow> ulp_exp x \<le> ulp_exp y"
  using ilog2_mono[of x y] by (simp add: ulp_exp_def)

lemma rnd_alt: "rnd x = of_int (rne (x / 2 powi ulp_exp x)) * 2 powi ulp_exp x"
  by (simp add: rnd_def Let_def)

lemma rnd_0: "rnd 0 = 0"
  by (simp add: rnd_alt rne_def)

lemma rnd_neg: "rnd (- x) = - rnd x"
  by (simp add: rnd_alt ulp_exp_neg rne_neg)

lemma rnd_nonneg: "0 \<le> x \<Longrightarrow> 0 \<le> rnd x"
proof -
  assume "0 \<le> x"
  then have "of_int 0 \<le> x / 2 powi ulp_exp x" by simp
  then have "0 \<le> rne (x / 2 powi ulp_exp x)" by (rule rne_ge)
  then show ?thesis by (simp add: rnd_alt)
qed

lemma powi_diff_int: "l \<le> k \<Longrightarrow> (2::rat) powi k / 2 powi l = of_int (2 ^ nat (k - l))"
proof -
  assume "l \<le> k"
  then have "(2::rat) powi (k - l) = 2 ^ nat (k - l)" by (simp add: powi_nat)
  then show ?thesis by (simp add: power_int_diff)
qed

text \<open>A value whose quotient by its unit in the last place is an integer is not changed.\<close>

lemma rnd_integral:
  assumes "x / 2 powi ulp_exp x = of_int j"
  shows "rnd x = x"
proof -
  have "rnd x = of_int j * 2 powi ulp_exp x"
    by (simp add: rnd_alt assms rne_of_int)
  also have "\<dots> = x" using assms by (simp add: field_simps)
  finally show ?thesis .
qed

lemma rnd_exact_pos:
  assumes m: "0 < m" "m \<le> 2 ^ 53" and e: "- 1074 \<le> e" and x: "x = of_int m * 2 powi e"
  shows "rnd x = x"
proof -
  have xpos: "0 < x" using m x by simp
  show ?thesis
  proof (cases "m = 2 ^ 53")
    case True
    then have x2: "x = 2 powi (e + 53)" using x by (simp add: power_int_add)
    then have "ilog2 x = e + 53"
      using xpos by (intro ilog2_unique) (simp_all add: power_int_add)
    then have ue: "ulp_exp x = e + 1" using e by (simp add: ulp_exp_def)
    have "(2::rat) powi (e + 53) / 2 powi (e + 1) = of_int (2 ^ nat (e + 53 - (e + 1)))"
      by (rule powi_diff_int) simp
    then have "x / 2 powi ulp_exp x = of_int (2 ^ nat (e + 53 - (e + 1)))"
      using ue x2 by simp
    then show ?thesis by (rule rnd_integral)
  next
    case False
    with m have "m < 2 ^ 53" by simp
    then have "(of_int m :: rat) < of_int (2 ^ 53)" by (simp only: of_int_less_iff)
    then have "x < 2 ^ 53 * 2 powi e" unfolding x by simp
    also have "\<dots> = 2 powi (e + 53)" by (simp add: power_int_add)
    finally have "2 powi ilog2 x < (2::rat) powi (e + 53)"
      using ilog2_bounds(1)[OF xpos] by linarith
    then have "ilog2 x < e + 53" by (rule powi_less_cancel)
    then have ue: "ulp_exp x \<le> e" using e by (simp add: ulp_exp_def)
    have "x / 2 powi ulp_exp x = of_int m * (2 powi e / 2 powi ulp_exp x)"
      unfolding x by simp
    also have "\<dots> = of_int (m * 2 ^ nat (e - ulp_exp x))"
      by (simp add: powi_diff_int[OF ue])
    finally show ?thesis by (rule rnd_integral)
  qed
qed

lemma rnd_exact:
  assumes m: "\<bar>m\<bar> \<le> 2 ^ 53" and e: "- 1074 \<le> e" and x: "x = of_int m * 2 powi e"
  shows "rnd x = x"
proof -
  consider "m = 0" | "0 < m" | "m < 0" by linarith
  then show ?thesis
  proof cases
    case 1 then show ?thesis using x by (simp add: rnd_0)
  next
    case 2 then show ?thesis using rnd_exact_pos[of m e x] m e x by simp
  next
    case 3
    then have "rnd (- x) = - x" using rnd_exact_pos[of "- m" e "- x"] m e x by simp
    then show ?thesis by (simp add: rnd_neg)
  qed
qed

lemma rnd_of_int: "\<bar>k\<bar> \<le> 2 ^ 53 \<Longrightarrow> rnd (of_int k) = of_int k"
  by (rule rnd_exact[where m = k and e = 0]) simp_all

lemma rnd_powi: "- 1074 \<le> e \<Longrightarrow> rnd (2 powi e) = 2 powi e"
  by (rule rnd_exact[where m = 1 and e = e]) simp_all

lemma rnd_mantissa_pos:
  assumes "0 < x"
  shows "rne (x / 2 powi ulp_exp x) \<le> 2 ^ 53"
proof -
  have "ilog2 x + 1 - ulp_exp x \<le> 53" by (simp add: ulp_exp_def)
  then have "(2::rat) powi (ilog2 x + 1 - ulp_exp x) \<le> 2 powi 53" by (rule powi_mono)
  moreover have "x / 2 powi ulp_exp x < 2 powi (ilog2 x + 1) / 2 powi ulp_exp x"
    using ilog2_bounds(2)[OF assms] by (simp add: divide_strict_right_mono)
  ultimately have "x / 2 powi ulp_exp x \<le> of_int (2 ^ 53)"
    by (simp add: power_int_diff)
  then show ?thesis by (rule rne_le)
qed

lemma rnd_idem_pos:
  assumes "0 < x"
  shows "rnd (rnd x) = rnd x"
proof -
  let ?m = "rne (x / 2 powi ulp_exp x)"
  have "0 \<le> ?m" using assms by (intro rne_ge) simp
  then have "\<bar>?m\<bar> \<le> 2 ^ 53" using rnd_mantissa_pos[OF assms] by simp
  then show ?thesis
    by (rule rnd_exact[where e = "ulp_exp x"]) (simp_all add: ulp_exp_ge rnd_alt)
qed

lemma rnd_idem: "rnd (rnd x) = rnd x"
proof -
  consider "x = 0" | "0 < x" | "x < 0" by linarith
  then show ?thesis
  proof cases
    case 1 then show ?thesis by (simp add: rnd_0)
  next
    case 2 then show ?thesis by (rule rnd_idem_pos)
  next
    case 3
    then have "rnd (rnd (- x)) = rnd (- x)" by (intro rnd_idem_pos) simp
    then show ?thesis by (simp add: rnd_neg)
  qed
qed

lemma is_double_rnd: "is_double (rnd x)"
  by (simp add: is_double_def rnd_idem)

text \<open>
  Rounding never crosses a Number, hence it is monotone.
\<close>

lemma is_double_mantissa:
  assumes "is_double c"
  shows "c / 2 powi ulp_exp c = of_int (rne (c / 2 powi ulp_exp c))"
proof -
  have "c = of_int (rne (c / 2 powi ulp_exp c)) * 2 powi ulp_exp c"
    using assms rnd_alt[of c] by (simp add: is_double_def)
  then have "c / 2 powi ulp_exp c
      = of_int (rne (c / 2 powi ulp_exp c)) * 2 powi ulp_exp c / 2 powi ulp_exp c"
    by simp
  then show ?thesis by simp
qed

lemma is_double_multiple:
  assumes "is_double c" "e \<le> ulp_exp c"
  shows "\<exists>j. c / 2 powi e = of_int j"
proof -
  let ?m = "rne (c / 2 powi ulp_exp c)"
  have "c / 2 powi e = (c / 2 powi ulp_exp c) * (2 powi ulp_exp c / 2 powi e)"
    by simp
  also have "\<dots> = of_int ?m * of_int (2 ^ nat (ulp_exp c - e))"
    using is_double_mantissa[OF assms(1)] powi_diff_int[OF assms(2)] by simp
  also have "\<dots> = of_int (?m * 2 ^ nat (ulp_exp c - e))" by simp
  finally show ?thesis by blast
qed

lemma rnd_le_double:
  assumes c: "is_double c" and x: "0 \<le> x" "x \<le> c"
  shows "rnd x \<le> c"
proof (cases "x = 0")
  case True
  then show ?thesis using x by (simp add: rnd_0)
next
  case False
  with x have xpos: "0 < x" by simp
  let ?e = "ulp_exp x"
  obtain j where j: "c / 2 powi ?e = of_int j"
    using is_double_multiple[OF c ulp_exp_mono[OF xpos x(2)]] by blast
  have "x / 2 powi ?e \<le> c / 2 powi ?e" using x(2) by (simp add: divide_right_mono)
  then have "rne (x / 2 powi ?e) \<le> j" unfolding j by (rule rne_le)
  then have "(of_int (rne (x / 2 powi ?e)) :: rat) \<le> of_int j" by (simp only: of_int_le_iff)
  then have "of_int (rne (x / 2 powi ?e)) * 2 powi ?e \<le> (of_int j :: rat) * 2 powi ?e"
    by (simp add: mult_right_mono)
  also have "(of_int j :: rat) * 2 powi ?e = c" using j by (simp add: field_simps)
  finally show ?thesis by (simp add: rnd_alt)
qed

lemma rnd_ge_multiple:
  assumes "d / 2 powi ulp_exp x = of_int j" "d \<le> x"
  shows "d \<le> rnd x"
proof -
  let ?e = "ulp_exp x"
  have "d / 2 powi ?e \<le> x / 2 powi ?e" using assms(2) by (simp add: divide_right_mono)
  then have "j \<le> rne (x / 2 powi ?e)" unfolding assms(1) by (rule rne_ge)
  then have "(of_int j :: rat) \<le> of_int (rne (x / 2 powi ?e))" by (simp only: of_int_le_iff)
  then have "(of_int j :: rat) * 2 powi ?e \<le> of_int (rne (x / 2 powi ?e)) * 2 powi ?e"
    by (simp add: mult_right_mono)
  moreover have "(of_int j :: rat) * 2 powi ?e = d" using assms(1) by (simp add: field_simps)
  ultimately show ?thesis by (simp add: rnd_alt)
qed

lemma rnd_ge_binade:
  assumes "0 < x" "- 1074 < ulp_exp x"
  shows "2 powi ilog2 x \<le> rnd x"
proof -
  have ue: "ulp_exp x = ilog2 x - 52" using assms(2) by (simp add: ulp_exp_def)
  have "(2::rat) powi ilog2 x / 2 powi ulp_exp x = of_int (2 ^ nat (ilog2 x - ulp_exp x))"
    by (rule powi_diff_int) (simp add: ue)
  then show ?thesis using ilog2_bounds(1)[OF assms(1)] by (rule rnd_ge_multiple)
qed

lemma rnd_ge_double:
  assumes c: "is_double c" and x: "0 < c" "c \<le> x"
  shows "c \<le> rnd x"
proof (cases "ulp_exp c = ulp_exp x")
  case True
  have "c / 2 powi ulp_exp x = of_int (rne (c / 2 powi ulp_exp c))"
    using is_double_mantissa[OF c] True by simp
  then show ?thesis using x(2) by (rule rnd_ge_multiple)
next
  case False
  have xpos: "0 < x" using x by simp
  from False ulp_exp_mono[OF x] have lt: "ulp_exp c < ulp_exp x" by simp
  then have big: "- 1074 < ulp_exp x" using ulp_exp_ge[of c] by simp
  then have "ilog2 c < ilog2 x" using lt unfolding ulp_exp_def by linarith
  then have "ilog2 c + 1 \<le> ilog2 x" by simp
  then have "(2::rat) powi (ilog2 c + 1) \<le> 2 powi ilog2 x" by (rule powi_mono)
  then have "c \<le> 2 powi ilog2 x" using ilog2_bounds(2)[OF x(1)] by linarith
  also have "\<dots> \<le> rnd x" using xpos big by (rule rnd_ge_binade)
  finally show ?thesis .
qed

lemma rnd_mono_nonneg:
  assumes "0 \<le> x" "x \<le> y"
  shows "rnd x \<le> rnd y"
proof (cases "x = 0")
  case True
  then show ?thesis using assms rnd_nonneg[of y] by (simp add: rnd_0)
next
  case False
  with assms have xpos: "0 < x" by simp
  then have ypos: "0 < y" using assms by simp
  show ?thesis
  proof (cases "ulp_exp x = ulp_exp y")
    case True
    have "x / 2 powi ulp_exp y \<le> y / 2 powi ulp_exp y"
      using assms(2) by (simp add: divide_right_mono)
    then have "rne (x / 2 powi ulp_exp y) \<le> rne (y / 2 powi ulp_exp y)" by (rule rne_mono)
    then have "(of_int (rne (x / 2 powi ulp_exp y)) :: rat) \<le> of_int (rne (y / 2 powi ulp_exp y))"
      by (simp only: of_int_le_iff)
    then show ?thesis unfolding rnd_alt True by (simp add: mult_right_mono)
  next
    case False
    from False ulp_exp_mono[OF xpos assms(2)] have lt: "ulp_exp x < ulp_exp y" by simp
    then have big: "- 1074 < ulp_exp y" using ulp_exp_ge[of x] by simp
    then have yl: "- 1074 \<le> ilog2 y" by (simp add: ulp_exp_def)
    have "ilog2 x < ilog2 y" using lt big unfolding ulp_exp_def by linarith
    then have "ilog2 x + 1 \<le> ilog2 y" by simp
    then have "(2::rat) powi (ilog2 x + 1) \<le> 2 powi ilog2 y" by (rule powi_mono)
    then have "x \<le> 2 powi ilog2 y" using ilog2_bounds(2)[OF xpos] by linarith
    moreover have "is_double (2 powi ilog2 y)" using rnd_powi[OF yl] by (simp add: is_double_def)
    ultimately have "rnd x \<le> 2 powi ilog2 y" using assms(1) by (intro rnd_le_double)
    also have "\<dots> \<le> rnd y" using ypos big by (rule rnd_ge_binade)
    finally show ?thesis .
  qed
qed

lemma rnd_mono: "x \<le> y \<Longrightarrow> rnd x \<le> rnd y"
proof -
  assume h: "x \<le> y"
  consider "0 \<le> x" | "x < 0" "0 \<le> y" | "y < 0" by linarith
  then show ?thesis
  proof cases
    case 1 then show ?thesis using h by (rule rnd_mono_nonneg)
  next
    case 2
    then have "0 \<le> rnd (- x)" by (intro rnd_nonneg) simp
    moreover have "0 \<le> rnd y" using 2 by (intro rnd_nonneg)
    ultimately show ?thesis by (simp add: rnd_neg)
  next
    case 3
    then have "rnd (- y) \<le> rnd (- x)" using h by (intro rnd_mono_nonneg) simp_all
    then show ?thesis by (simp add: rnd_neg)
  qed
qed



subsection \<open>Exact integer arithmetic\<close>





lemma fadd_one_int: "0 \<le> n \<Longrightarrow> n < 2 ^ 53 \<Longrightarrow> fadd (of_int n) 1 = of_int n + 1"
proof -
  assume "0 \<le> n" "n < 2 ^ 53"
  then have "\<bar>n + 1\<bar> \<le> 2 ^ 53" by simp
  then have "rnd (of_int (n + 1)) = of_int (n + 1)" by (rule rnd_of_int)
  then show ?thesis by (simp add: fadd_def)
qed

lemma fadd_one_ge: "is_double t \<Longrightarrow> t \<le> fadd t 1"
proof -
  assume "is_double t"
  then have "t = rnd t" by (simp add: is_double_def)
  also have "\<dots> \<le> rnd (t + 1)" by (rule rnd_mono) simp
  finally show ?thesis by (simp add: fadd_def)
qed

lemma fdiv_pos:
  assumes "2 powi (- 1074) \<le> a / b"
  shows "0 < fdiv a b"
proof -
  have "is_double (2 powi (- 1074))" using rnd_powi[of "- 1074"] by (simp add: is_double_def)
  then have "2 powi (- 1074) \<le> rnd (a / b)" using assms by (intro rnd_ge_double) simp_all
  moreover have "(0::rat) < 2 powi (- 1074)" by simp
  ultimately show ?thesis unfolding fdiv_def by linarith
qed

subsection \<open>The square root\<close>

text \<open>
  \<open>isqrt\<close> is the integer square root, and \<open>Math_sqrt x\<close> is a Number with 53
  significant bits within half a unit in the last place of the exact root.
\<close>

lemma isqrt_nonneg: "0 \<le> isqrt n"
proof (induction n rule: isqrt.induct)
  case (1 n)
  show ?case
  proof (cases "n < 4")
    case True
    then show ?thesis by (subst isqrt.simps) simp
  next
    case False
    with 1 have "0 \<le> isqrt (n div 4)" by simp
    then show ?thesis using False by (subst isqrt.simps) (simp add: Let_def)
  qed
qed

lemma isqrt_bounds:
  assumes "0 \<le> n"
  shows "isqrt n * isqrt n \<le> n \<and> n < (isqrt n + 1) * (isqrt n + 1)"
  using assms
proof (induction n rule: isqrt.induct)
  case (1 n)
  show ?case
  proof (cases "n < 4")
    case True
    have "isqrt n = (if n \<le> 0 then 0 else 1)" using True by (subst isqrt.simps) simp
    then show ?thesis using True "1.prems" by auto
  next
    case False
    let ?q = "isqrt (n div 4)"
    let ?r = "2 * ?q"
    have "0 \<le> n div 4" using False by simp
    with 1(1)[OF False] have lo: "?q * ?q \<le> n div 4"
      and hi: "n div 4 < (?q + 1) * (?q + 1)" by simp_all
    have "4 * (?q * ?q) \<le> 4 * (n div 4)" using lo by simp
    also have "\<dots> \<le> n" by simp
    finally have a: "?r * ?r \<le> n" by (simp add: algebra_simps)
    have "n div 4 + 1 \<le> (?q + 1) * (?q + 1)" using hi by simp
    then have "4 * (n div 4 + 1) \<le> 4 * ((?q + 1) * (?q + 1))" by simp
    moreover have "n < 4 * (n div 4 + 1)" by simp
    ultimately have b: "n < (?r + 2) * (?r + 2)" by (simp add: algebra_simps)
    have eq: "isqrt n = (if (?r + 1) * (?r + 1) \<le> n then ?r + 1 else ?r)"
      using False by (subst isqrt.simps) (simp add: Let_def)
    show ?thesis
    proof (cases "(?r + 1) * (?r + 1) \<le> n")
      case True
      then have "isqrt n = ?r + 1" using eq by simp
      then show ?thesis using True b by (simp add: ac_simps)
    next
      case False
      then have "isqrt n = ?r" using eq by simp
      then show ?thesis using False a by simp
    qed
  qed
qed

lemma div_powi_less:
  assumes "(x::rat) < 2 powi a" "a - b \<le> c"
  shows "x / 2 powi b < 2 powi c"
proof -
  have "x / 2 powi b < 2 powi a / 2 powi b"
    using assms(1) by (simp add: divide_strict_right_mono)
  also have "\<dots> = 2 powi (a - b)" by (simp add: power_int_diff)
  also have "\<dots> \<le> 2 powi c" using assms(2) by (rule powi_mono)
  finally show ?thesis .
qed

lemma Math_sqrt_nearest:
  assumes "0 < x"
  shows "\<exists>m. Math_sqrt x = of_int m * 2 powi (ilog2 x div 2 - 52) \<and> 0 < m \<and> m \<le> 2 ^ 53 \<and>
     (of_int m - 1 / 2) * (of_int m - 1 / 2) \<le> x / 2 powi (2 * (ilog2 x div 2 - 52)) \<and>
     x / 2 powi (2 * (ilog2 x div 2 - 52)) \<le> (of_int m + 1 / 2) * (of_int m + 1 / 2)"
proof -
  define e where "e = ilog2 x div 2 - 52"
  define y where "y = x / 2 powi (2 * e)"
  define f where "f = isqrt \<lfloor>y\<rfloor>"
  define h :: rat where "h = (of_int f + 1 / 2) * (of_int f + 1 / 2)"
  define m where "m = (if y < h then f else if h < y then f + 1 else if even f then f else f + 1)"
  have ms: "Math_sqrt x = of_int m * 2 powi e"
    using assms by (simp add: Math_sqrt_def Let_def m_def h_def f_def y_def e_def)
  have "2 * e \<le> ilog2 x" unfolding e_def by presburger
  then have "(2::rat) powi (2 * e) \<le> 2 powi ilog2 x" by (rule powi_mono)
  also have "\<dots> \<le> x" using ilog2_bounds(1)[OF assms] .
  finally have y1: "1 \<le> y" unfolding y_def by simp
  then have fl: "1 \<le> \<lfloor>y\<rfloor>" by simp
  have "ilog2 x + 1 - 2 * e \<le> 106" unfolding e_def by presburger
  with ilog2_bounds(2)[OF assms] have "y < 2 powi 106" unfolding y_def by (rule div_powi_less)
  then have yhi: "y < 2 ^ 106" by simp
  have "0 \<le> \<lfloor>y\<rfloor>" using fl by simp
  from isqrt_bounds[OF this] have sq: "f * f \<le> \<lfloor>y\<rfloor>" "\<lfloor>y\<rfloor> < (f + 1) * (f + 1)"
    unfolding f_def by simp_all
  have f0: "0 \<le> f" unfolding f_def by (rule isqrt_nonneg)
  have f1: "1 \<le> f"
  proof (rule ccontr)
    assume "\<not> 1 \<le> f"
    then have "f = 0" using f0 by simp
    then show False using sq(2) fl by simp
  qed
  have lo: "(of_int (f * f) :: rat) \<le> y"
  proof -
    have "(of_int (f * f) :: rat) \<le> of_int \<lfloor>y\<rfloor>" using sq(1) by (simp only: of_int_le_iff)
    also have "\<dots> \<le> y" by (rule of_int_floor_le)
    finally show ?thesis .
  qed
  have hi: "y < of_int ((f + 1) * (f + 1))"
  proof -
    have "\<lfloor>y\<rfloor> + 1 \<le> (f + 1) * (f + 1)" using sq(2) by simp
    then have "(of_int (\<lfloor>y\<rfloor> + 1) :: rat) \<le> of_int ((f + 1) * (f + 1))"
      by (simp only: of_int_le_iff)
    moreover have "y < of_int (\<lfloor>y\<rfloor> + 1)" by linarith
    ultimately show ?thesis by linarith
  qed
  have f53: "f < 2 ^ 53"
  proof (rule ccontr)
    assume "\<not> f < 2 ^ 53"
    then have "2 ^ 53 \<le> f" by simp
    then have "(2 ^ 53) * (2 ^ 53) \<le> f * f" by (intro mult_mono) simp_all
    then have "(of_int ((2 ^ 53) * (2 ^ 53)) :: rat) \<le> of_int (f * f)"
      by (simp only: of_int_le_iff)
    with lo yhi show False by simp
  qed
  have fr: "(1::rat) \<le> of_int f" using f1 by simp
  have a: "(of_int f - 1 / 2) * (of_int f - 1 / 2) \<le> (of_int (f * f) :: rat)"
    using fr by (simp add: algebra_simps)
  have b: "(of_int ((f + 1) * (f + 1)) :: rat)
      \<le> (of_int (f + 1) + 1 / 2) * (of_int (f + 1) + 1 / 2)"
    using fr by (simp add: algebra_simps)
  have c: "(of_int (f + 1) - 1 / 2) * (of_int (f + 1) - 1 / 2) = h"
    unfolding h_def by (simp add: algebra_simps)
  have low: "(of_int f - 1 / 2) * (of_int f - 1 / 2) \<le> y" using a lo by linarith
  have upp: "y \<le> (of_int (f + 1) + 1 / 2) * (of_int (f + 1) + 1 / 2)" using b hi by linarith
  have brk: "(of_int m - 1 / 2) * (of_int m - 1 / 2) \<le> y \<and>
      y \<le> (of_int m + 1 / 2) * (of_int m + 1 / 2)"
  proof -
    consider "m = f" "y \<le> h" | "m = f + 1" "h \<le> y"
      unfolding m_def by (cases "y < h"; cases "h < y"; cases "even f") auto
    then show ?thesis
    proof cases
      case 1
      then show ?thesis using low unfolding h_def by simp
    next
      case 2
      then show ?thesis using upp c by simp
    qed
  qed
  have "0 < m" "m \<le> 2 ^ 53" using f1 f53 unfolding m_def by auto
  with ms brk show ?thesis unfolding y_def e_def by blast
qed

section \<open>Properties of the operations\<close>

subsection \<open>What each operation changes\<close>

lemma animate_total:
  "total_count (animate u v s) =
     (if isRunning s then fadd (total_count s) 1 else total_count s)"
  by (simp add: animate_def Let_def setTimeout_def drawStats_def drawDot_def)

lemma animate_inside:
  "inside (animate u v s) =
     (if isRunning s \<and> isInside s (coordinate s u) (coordinate s v)
      then fadd (inside s) 1 else inside s)"
  by (simp add: animate_def Let_def setTimeout_def drawStats_def drawDot_def)

lemma animate_isRunning: "isRunning (animate u v s) = isRunning s"
  by (simp add: animate_def Let_def setTimeout_def drawStats_def drawDot_def)

lemma animate_geometry:
  "squareSize (animate u v s) = squareSize s"
  "offset (animate u v s) = offset s"
  "radius (animate u v s) = radius s"
  "centerX (animate u v s) = centerX s"
  "centerY (animate u v s) = centerY s"
  by (simp_all add: animate_def Let_def setTimeout_def drawStats_def drawDot_def)

lemma animate_paused: "\<not> isRunning s \<Longrightarrow> animate u v s = s"
  by (simp add: animate_def)

lemma pause_fields:
  "total_count (pause s) = total_count s"
  "inside (pause s) = inside s"
  "isRunning (pause s) = False"
  "pauseBtn (pause s) = ''Resume''"
  "squareSize (pause s) = squareSize s"
  "offset (pause s) = offset s"
  "radius (pause s) = radius s"
  "centerX (pause s) = centerX s"
  "centerY (pause s) = centerY s"
  by (simp_all add: pause_def Let_def clearTimeout_def split: option.splits)

lemma reset_fields:
  "total_count (reset s) = 0"
  "inside (reset s) = 0"
  "isRunning (reset s) = False"
  "squareSize (reset s) = squareSize s"
  "offset (reset s) = offset s"
  "radius (reset s) = radius s"
  "centerX (reset s) = centerX s"
  "centerY (reset s) = centerY s"
  by (simp_all add: reset_def Let_def drawStats_def drawBoard_def pause_fields)

lemma animate_pi_js_eq:
  "animate_pi_js u v s =
     (animate u v (s\<lparr>isRunning := True\<rparr>))\<lparr>isRunning := isRunning s, timeoutId := timeoutId s\<rparr>"
  by (simp add: animate_pi_js_def animate_def Let_def setTimeout_def drawStats_def drawDot_def
      coordinate_def isInside_def computeZScore_def piEstimate_def)

lemma animate_pi_js_counts:
  "total_count (animate_pi_js u v s) = fadd (total_count s) 1"
  "inside (animate_pi_js u v s) =
     (if isInside s (coordinate s u) (coordinate s v) then fadd (inside s) 1 else inside s)"
  by (simp_all add: animate_pi_js_eq animate_total animate_inside coordinate_def isInside_def)

lemma simulation_geometry:
  "squareSize (simulation u v) = 500" "offset (simulation u v) = 50"
  "radius (simulation u v) = 250" "centerX (simulation u v) = 300"
  "centerY (simulation u v) = 300"
proof -
  have "fdiv 500 2 = 250" "fadd 50 250 = 300" by code_simp+
  then show "squareSize (simulation u v) = 500" "offset (simulation u v) = 50"
    "radius (simulation u v) = 250" "centerX (simulation u v) = 300"
    "centerY (simulation u v) = 300"
    by (simp_all add: simulation_def constructor_def Let_def animate_geometry setupUI_def
        drawBoard_def setupCanvas_def MonteCarloPi_fields_def)
qed

lemma simulation_state:
  "isRunning (simulation u v)" "timeoutId (simulation u v) = Some 0"
  "timers (simulation u v) = [(0, 500)]"
  by (simp_all add: simulation_def constructor_def Let_def animate_def setupUI_def
      drawBoard_def setupCanvas_def MonteCarloPi_fields_def setTimeout_def drawStats_def
      drawDot_def)

subsection \<open>The estimate and the deviation\<close>


lemma Math_sqrt_pos:
  assumes "0 < x"
  shows "0 < Math_sqrt x"
proof -
  obtain m where "Math_sqrt x = of_int m * 2 powi (ilog2 x div 2 - 52)" "0 < m"
    using Math_sqrt_nearest[OF assms] by blast
  then show ?thesis by simp
qed

lemma variance_value: "fmul (fdiv Math_PI 4) (fsub 1 (fdiv Math_PI 4)) = 759072207074205 / 2 ^ 52"
  by code_simp

lemma std_positive:
  assumes "1 \<le> n" "n \<le> 2 ^ 53"
  shows "0 < Math_sqrt (fdiv (fmul (fdiv Math_PI 4) (fsub 1 (fdiv Math_PI 4))) n)"
proof -
  let ?v = "759072207074205 / 2 ^ 52 :: rat"
  have "?v / 2 ^ 53 \<le> ?v / n" using assms by (intro divide_left_mono) simp_all
  moreover have "2 powi (- 1074) \<le> ?v / 2 ^ 53"
  proof -
    have "(2::rat) powi (- 1074) \<le> 2 powi (- 110)" by (rule powi_mono) simp
    also have "\<dots> \<le> ?v / 2 ^ 53" by (simp add: power_int_minus field_simps)
    finally show ?thesis .
  qed
  ultimately have "2 powi (- 1074) \<le> ?v / n" by linarith
  then have "0 < fdiv ?v n" by (rule fdiv_pos)
  then show ?thesis unfolding variance_value by (rule Math_sqrt_pos)
qed

lemma computeZScore_unguarded:
  assumes "1 \<le> total_count s" "total_count s \<le> 2 ^ 53"
  shows "computeZScore s =
     fdiv (fsub (fdiv (inside s) (total_count s)) (fdiv Math_PI 4))
          (Math_sqrt (fdiv (fmul (fdiv Math_PI 4) (fsub 1 (fdiv Math_PI 4))) (total_count s)))"
  using assms std_positive[OF assms] by (simp add: computeZScore_def Let_def)

subsection \<open>Classification on the integer grid\<close>










subsection \<open>The invariant of the counters\<close>

lemma animate_inv:
  assumes "is_double (total_count s)" "acc_inv s"
  shows "acc_inv (animate u v s)" "is_double (total_count (animate u v s))"
proof -
  have a: "0 \<le> fadd (inside s) 1"
    using assms(2) unfolding fadd_def acc_inv_def by (intro rnd_nonneg) simp
  have b: "fadd (inside s) 1 \<le> fadd (total_count s) 1"
    using assms(2) unfolding fadd_def acc_inv_def by (intro rnd_mono) simp
  have c: "inside s \<le> fadd (total_count s) 1"
    using fadd_one_ge[OF assms(1)] assms(2) unfolding acc_inv_def by linarith
  show "acc_inv (animate u v s)"
    using a b c assms(2) by (simp add: acc_inv_def animate_total animate_inside)
  show "is_double (total_count (animate u v s))"
    using assms(1) by (simp add: animate_total fadd_def is_double_rnd)
qed

lemma is_double_0: "is_double 0"
  by (simp add: is_double_def rnd_0)

lemma pause_inv: "acc_inv (pause s) = acc_inv s"
  by (simp add: acc_inv_def pause_fields)

lemma step_inv:
  assumes "is_double (total_count s)" "acc_inv s"
  shows "acc_inv (step e s) \<and> is_double (total_count (step e s))"
proof (cases e)
  case (Timeout i u v)
  have "is_double (total_count (clearTimeout i s))" "acc_inv (clearTimeout i s)"
    using assms by (simp_all add: clearTimeout_def acc_inv_def)
  then show ?thesis using animate_inv[of "clearTimeout i s" u v] assms Timeout by simp
next
  case (PauseClick u v)
  let ?t = "s\<lparr>isRunning := True, pauseBtn := ''Pause''\<rparr>"
  have "is_double (total_count ?t)" "acc_inv ?t" using assms by (simp_all add: acc_inv_def)
  then show ?thesis using animate_inv[of ?t u v] assms PauseClick
    by (simp add: resume_def pause_inv pause_fields)
next
  case ResetClick
  then show ?thesis by (simp add: acc_inv_def reset_fields is_double_0)
next
  case (SliderInput x)
  then show ?thesis using assms by (simp add: acc_inv_def)
qed

lemma run_inv:
  "is_double (total_count s) \<Longrightarrow> acc_inv s \<Longrightarrow>
     acc_inv (run evs s) \<and> is_double (total_count (run evs s))"
proof (induction evs arbitrary: s)
  case Nil
  then show ?case by simp
next
  case (Cons e evs)
  then show ?case using step_inv[of s e] by simp
qed

lemma constructor_inv:
  "acc_inv (constructor a u v (MonteCarloPi_fields sq off)) \<and>
   is_double (total_count (constructor a u v (MonteCarloPi_fields sq off)))"
proof -
  let ?t = "setupUI (drawBoard (setupCanvas (MonteCarloPi_fields sq off)))"
  have t: "is_double (total_count ?t)" "acc_inv ?t"
    "is_double (total_count (?t\<lparr>isRunning := True\<rparr>))" "acc_inv (?t\<lparr>isRunning := True\<rparr>)"
    by (simp_all add: setupUI_def drawBoard_def setupCanvas_def MonteCarloPi_fields_def
        acc_inv_def is_double_0)
  show ?thesis
    using t animate_inv[OF t(3,4), of u v] by (simp add: constructor_def Let_def)
qed

lemma reachable_invariant:
  "0 \<le> inside (run evs (simulation u v)) \<and>
   inside (run evs (simulation u v)) \<le> total_count (run evs (simulation u v))"
  using run_inv[of "simulation u v" evs] constructor_inv[of True u v 500 50]
  by (simp add: simulation_def acc_inv_def)

subsection \<open>Sampled coordinates\<close>

lemma coordinate_closed:
  assumes r: "0 \<le> r" "r < 1"
    and sq: "0 \<le> squareSize s" "is_double (squareSize s)"
    and off: "is_double (offset s)" "is_double (offset s + squareSize s)"
  shows "offset s \<le> coordinate s r" "coordinate s r \<le> offset s + squareSize s"
proof -
  let ?p = "fmul r (squareSize s)"
  have "0 \<le> r * squareSize s" using r sq by simp
  moreover have "r * squareSize s \<le> squareSize s"
    using r sq(1) by (simp add: mult_left_le_one_le)
  ultimately have p: "0 \<le> ?p" "?p \<le> squareSize s"
    unfolding fmul_def using sq(2) by (auto intro: rnd_nonneg rnd_le_double)
  have "rnd (offset s) \<le> rnd (?p + offset s)" using p by (intro rnd_mono) simp
  then show "offset s \<le> coordinate s r"
    using off(1) by (simp add: coordinate_def fadd_def is_double_def)
  have "rnd (?p + offset s) \<le> rnd (offset s + squareSize s)" using p by (intro rnd_mono) simp
  then show "coordinate s r \<le> offset s + squareSize s"
    using off(2) by (simp add: coordinate_def fadd_def is_double_def)
qed

lemma coordinate_strict:
  assumes g: "squareSize s = 500" "offset s = 50" and r: "0 \<le> r" "r \<le> 1 - 1 / 2 ^ 52"
  shows "coordinate s r < 550"
proof -
  have e1: "rnd ((1 - 1 / 2 ^ 52) * 500) = 500 - 1 / 2 ^ 43" by code_simp
  have e2: "rnd (500 - 1 / 2 ^ 43 + 50) = 550 - 1 / 2 ^ 43" by code_simp
  have "r * 500 \<le> (1 - 1 / 2 ^ 52) * 500" using r by simp
  then have "rnd (r * 500) \<le> rnd ((1 - 1 / 2 ^ 52) * 500)" by (rule rnd_mono)
  then have "rnd (r * 500) + 50 \<le> 500 - 1 / 2 ^ 43 + 50" unfolding e1 by simp
  then have "rnd (rnd (r * 500) + 50) \<le> rnd (500 - 1 / 2 ^ 43 + 50)" by (rule rnd_mono)
  then have "coordinate s r \<le> 550 - 1 / 2 ^ 43"
    unfolding e2 by (simp add: coordinate_def fadd_def fmul_def g)
  then show ?thesis by simp
qed

subsection \<open>The geometry never changes\<close>




subsection \<open>Paused states and the single tick loop\<close>

lemma run_paused:
  assumes "\<not> isRunning s" "no_click evs"
  shows "\<not> isRunning (run evs s) \<and>
     total_count (run evs s) = (if ResetClick \<in> set evs then 0 else total_count s) \<and>
     inside (run evs s) = (if ResetClick \<in> set evs then 0 else inside s)"
  using assms
proof (induction evs arbitrary: s)
  case Nil
  then show ?case by simp
next
  case (Cons e evs)
  show ?case
  proof (cases e)
    case (Timeout i u v)
    have "step e s = (if i \<in> fst ` set (timers s) then clearTimeout i s else s)"
      using Timeout Cons.prems(1) by (simp add: animate_paused clearTimeout_def)
    then have st: "\<not> isRunning (step e s)" "total_count (step e s) = total_count s"
      "inside (step e s) = inside s"
      using Cons.prems(1) by (simp_all add: clearTimeout_def)
    have "no_click evs" using Cons.prems(2) Timeout by simp
    from Cons.IH[OF st(1) this] show ?thesis using st Timeout by simp
  next
    case (PauseClick u v)
    then show ?thesis using Cons.prems(2) by simp
  next
    case ResetClick
    have st: "\<not> isRunning (step e s)" "total_count (step e s) = 0" "inside (step e s) = 0"
      using ResetClick by (simp_all add: reset_fields)
    have "no_click evs" using Cons.prems(2) by simp
    from Cons.IH[OF st(1) this] show ?thesis using st ResetClick by simp
  next
    case (SliderInput x)
    have st: "\<not> isRunning (step e s)" "total_count (step e s) = total_count s"
      "inside (step e s) = inside s"
      using SliderInput Cons.prems(1) by simp_all
    have "no_click evs" using Cons.prems(2) by simp
    from Cons.IH[OF st(1) this] show ?thesis using st SliderInput by simp
  qed
qed

lemma pause_cancels: "timeoutId s = Some i \<Longrightarrow> i \<notin> fst ` set (timers (pause s))"
  by (auto simp: pause_def Let_def clearTimeout_def)

lemma one_loop_animate:
  assumes "isRunning s" "timers s = []"
  shows "one_loop (animate u v s)"
  using assms
  by (simp add: one_loop_def animate_def Let_def setTimeout_def drawStats_def drawDot_def)

lemma one_loop_pause: "one_loop s \<Longrightarrow> one_loop (pause s) \<and> timers (pause s) = []"
  by (auto simp: one_loop_def pause_def Let_def clearTimeout_def split: option.splits if_splits)

lemma one_loop_step: "one_loop s \<Longrightarrow> one_loop (step e s)"
proof (cases e)
  case (Timeout i u v)
  assume h: "one_loop s"
  show ?thesis
  proof (cases "i \<in> fst ` set (timers s)")
    case True
    then have run: "isRunning s" using h by (auto simp: one_loop_def split: if_splits)
    then obtain j where j: "timeoutId s = Some j" "map fst (timers s) = [j]"
      using h by (auto simp: one_loop_def split: option.splits)
    then have "i = j" using True by (metis list.set_map list.simps(15) empty_set singletonD)
    then have "timers (clearTimeout i s) = []"
      using j(2) by (auto simp: clearTimeout_def filter_empty_conv)
    then have "one_loop (animate u v (clearTimeout i s))"
      using run by (intro one_loop_animate) (simp_all add: clearTimeout_def)
    then show ?thesis using Timeout True by simp
  next
    case False
    then show ?thesis using Timeout h by simp
  qed
next
  case (PauseClick u v)
  assume h: "one_loop s"
  show ?thesis
  proof (cases "isRunning s")
    case True
    then show ?thesis using PauseClick one_loop_pause[OF h] by simp
  next
    case False
    then have "timers s = []" using h by (simp add: one_loop_def)
    then have "one_loop (animate u v (s\<lparr>isRunning := True, pauseBtn := ''Pause''\<rparr>))"
      by (intro one_loop_animate) simp_all
    then show ?thesis using PauseClick False by (simp add: resume_def)
  qed
next
  case ResetClick
  assume h: "one_loop s"
  have "timers (reset s) = timers (pause s)" "isRunning (reset s) = False"
    by (simp_all add: reset_def Let_def drawStats_def drawBoard_def pause_fields)
  then show ?thesis using ResetClick one_loop_pause[OF h] by (simp add: one_loop_def)
next
  case (SliderInput x)
  assume "one_loop s"
  then show ?thesis using SliderInput
    by (auto simp: one_loop_def split: option.splits if_splits)
qed

lemma single_tick_loop: "one_loop (run evs (simulation u v))"
proof -
  have "one_loop s \<Longrightarrow> one_loop (run evs s)" for s
    by (induction evs arbitrary: s) (simp_all add: one_loop_step)
  moreover have "one_loop (simulation u v)"
    by (simp add: one_loop_def simulation_state)
  ultimately show ?thesis .
qed

section \<open>The claims of the specification\<close>

subsection \<open>C1: the deviation and the estimate\<close>



subsection \<open>C2: the classifier\<close>



subsection \<open>C3: recording a sample\<close>

text \<open>
  Claim C3 says that recording one sample increments \<open>total\<close> by exactly 1 from every
  prior state. The counters are Numbers, and \<open>2 ^ 53 + 1\<close> is not a Number: it lies
  halfway between \<open>2 ^ 53\<close> and \<open>2 ^ 53 + 2\<close> and rounds to the former, whose
  significand is even. So \<open>++this.total\<close> leaves a total of \<open>2 ^ 53\<close> unchanged.
\<close>

theorem record_exact_increment_counterexample:
  "isRunning ((simulation 0 0)\<lparr>total_count := 2 ^ 53\<rparr>)
   \<and> total_count (animate 0 0 ((simulation 0 0)\<lparr>total_count := 2 ^ 53\<rparr>)) = 2 ^ 53
   \<and> total_count (animate 0 0 ((simulation 0 0)\<lparr>total_count := 2 ^ 53\<rparr>))
       \<noteq> total_count ((simulation 0 0)\<lparr>total_count := 2 ^ 53\<rparr>) + 1"
proof -
  have "fadd (2 ^ 53) 1 = 2 ^ 53" by code_simp
  then show ?thesis by (simp add: animate_total simulation_state)
qed

text \<open>
  Claim C3, amended. For every prior state whose counters are integers from 0 up to
  \<open>2 ^ 53 - 1\<close> and every classification, one tick of the running simulation
  increments \<open>total\<close> by exactly 1, and \<open>inside\<close> by exactly 1 if the sample is
  classified inside and by 0 otherwise. For every prior state whose \<open>total\<close> is a
  Number a tick never decreases \<open>total\<close>, and a sample classified outside leaves
  \<open>inside\<close> unchanged.
\<close>

theorem record_increments:
  "(isRunning s \<and> total_count s = of_int n \<and> 0 \<le> n \<and> n < 2 ^ 53
      \<and> inside s = of_int k \<and> 0 \<le> k \<and> k < 2 ^ 53 \<longrightarrow>
      total_count (animate u v s) = total_count s + 1 \<and>
      inside (animate u v s)
        = inside s + (if isInside s (coordinate s u) (coordinate s v) then 1 else 0)) \<and>
   (is_double (total_count s) \<longrightarrow> total_count s \<le> total_count (animate u v s)) \<and>
   (\<not> isInside s (coordinate s u) (coordinate s v) \<longrightarrow> inside (animate u v s) = inside s)"
  by (simp add: animate_total animate_inside fadd_one_int fadd_one_ge)

theorem record_increments_witness:
  "isRunning ((simulation 0 0)\<lparr>total_count := 7, inside := 3\<rparr>)
   \<and> total_count ((simulation 0 0)\<lparr>total_count := 7, inside := 3\<rparr>) = of_int 7
   \<and> (0::int) \<le> 7 \<and> (7::int) < 2 ^ 53
   \<and> inside ((simulation 0 0)\<lparr>total_count := 7, inside := 3\<rparr>) = of_int 3
   \<and> (0::int) \<le> 3 \<and> (3::int) < 2 ^ 53
   \<and> is_double (total_count ((simulation 0 0)\<lparr>total_count := 7, inside := 3\<rparr>))
   \<and> \<not> isInside ((simulation 0 0)\<lparr>total_count := 7, inside := 3\<rparr>) 50 50
   \<and> total_count (animate 0 0 ((simulation 0 0)\<lparr>total_count := 7, inside := 3\<rparr>)) = 8
   \<and> inside (animate 0 0 ((simulation 0 0)\<lparr>total_count := 7, inside := 3\<rparr>)) = 3"
proof -
  let ?s = "(simulation 0 0)\<lparr>total_count := 7, inside := 3\<rparr>"
  have c: "coordinate ?s 0 = 50"
    unfolding coordinate_def by (simp add: simulation_geometry) code_simp
  have i: "\<not> isInside ?s 50 50"
    unfolding isInside_def by (simp add: simulation_geometry) code_simp
  have d: "is_double (total_count ?s)"
    unfolding is_double_def by simp code_simp
  have r: "isRunning ?s" by (simp add: simulation_state)
  have "total_count (animate 0 0 ?s) = total_count ?s + 1 \<and>
      inside (animate 0 0 ?s)
        = inside ?s + (if isInside ?s (coordinate ?s 0) (coordinate ?s 0) then 1 else 0)"
    using record_increments[where s = ?s and n = 7 and k = 3 and u = 0 and v = 0] r
    by simp
  then show ?thesis using c i d r by simp
qed

subsection \<open>C4: the invariant of the counters\<close>

text \<open>
  Claim C4. The invariant \<open>0 \<le> inside \<le> total\<close> holds in the initial state
  \<open>(0, 0)\<close> of a new object and is preserved by every operation that changes the
  counters: a tick from every state whose \<open>total\<close> is a Number preserves it, and
  \<open>total\<close> stays a Number; \<open>reset\<close> establishes it from every state. Hence it
  holds in every state that the program reaches, whatever events occur.
\<close>

theorem accumulator_invariant:
  "acc_inv (MonteCarloPi_fields sq off) \<and>
   (is_double (total_count s) \<and> acc_inv s \<longrightarrow>
      acc_inv (animate u v s) \<and> is_double (total_count (animate u v s))) \<and>
   acc_inv (reset s) \<and> is_double (total_count (reset s)) \<and>
   acc_inv (run evs (simulation u v))"
  using animate_inv[of s u v] reachable_invariant[of evs u v]
  by (simp add: acc_inv_def MonteCarloPi_fields_def reset_fields is_double_0)

theorem accumulator_invariant_witness:
  "is_double (total_count ((simulation 0 0)\<lparr>total_count := 7, inside := 3\<rparr>))
   \<and> acc_inv ((simulation 0 0)\<lparr>total_count := 7, inside := 3\<rparr>)
   \<and> acc_inv (animate (1 / 2) (1 / 2) ((simulation 0 0)\<lparr>total_count := 7, inside := 3\<rparr>))"
proof -
  let ?s = "(simulation 0 0)\<lparr>total_count := 7, inside := 3\<rparr>"
  have d: "is_double (total_count ?s)"
    unfolding is_double_def by simp code_simp
  have i: "acc_inv ?s" by (simp add: acc_inv_def)
  from accumulator_invariant[where s = ?s and u = "1 / 2" and v = "1 / 2"] d i
  have "acc_inv (animate (1 / 2) (1 / 2) ?s)" by blast
  with d i show ?thesis by blast
qed

subsection \<open>C5: before the first sample\<close>



subsection \<open>C6: reset\<close>

text \<open>
  Claim C6. From any state \<open>reset\<close> sets both counters to 0, and it is idempotent:
  after a second call in a row the counters are again \<open>(0, 0)\<close>, and the whole state
  is the one the first call left.
\<close>

theorem reset_clears_and_is_idempotent:
  "total_count (reset s) = 0 \<and> inside (reset s) = 0 \<and>
   total_count (reset (reset s)) = 0 \<and> inside (reset (reset s)) = 0 \<and>
   reset (reset s) = reset s"
proof -
  have "pause (reset s) = reset s"
    by (simp add: reset_def pause_def Let_def clearTimeout_def drawStats_def drawBoard_def
        split: option.splits)
  then have "reset (reset s) = reset s"
    by (simp add: reset_def[of "reset s"] Let_def)
      (simp add: reset_def Let_def drawStats_def drawBoard_def)
  then show ?thesis by (simp add: reset_fields)
qed

theorem reset_clears_and_is_idempotent_witness:
  "total_count (reset (simulation (1 / 2) (1 / 2))) = 0
   \<and> inside (reset (simulation (1 / 2) (1 / 2))) = 0
   \<and> reset (reset (simulation (1 / 2) (1 / 2))) = reset (simulation (1 / 2) (1 / 2))"
  using reset_clears_and_is_idempotent[of "simulation (1 / 2) (1 / 2)"] by blast

subsection \<open>C7: the sampled coordinates\<close>

text \<open>
  Claim C7 says that for every \<open>r\<close> in \<open>[0, 1)\<close> the coordinate
  \<open>r * squareSize + offset\<close> lies in the half-open interval
  \<open>[offset, offset + squareSize)\<close>. \<open>Math.random()\<close> may return the largest Number
  below 1, \<open>1 - 2 ^ -53\<close>. Then \<open>r * 500\<close> rounds to \<open>500 - 2 ^ -44\<close>, and the
  sum with 50 is exactly halfway between the neighbouring Numbers \<open>550 - 2 ^ -43\<close>
  and \<open>550\<close>; it rounds to \<open>550\<close>, whose significand is even. The coordinate is
  \<open>offset + squareSize\<close>.
\<close>

theorem coordinate_half_open_counterexample:
  "(0::rat) \<le> 1 - 1 / 2 ^ 53 \<and> (1 - 1 / 2 ^ 53 :: rat) < 1 \<and> is_double (1 - 1 / 2 ^ 53)
   \<and> fmul (1 - 1 / 2 ^ 53) 500 = 500 - 1 / 2 ^ 44
   \<and> coordinate (simulation 0 0) (1 - 1 / 2 ^ 53) = 550
   \<and> \<not> coordinate (simulation 0 0) (1 - 1 / 2 ^ 53)
         < offset (simulation 0 0) + squareSize (simulation 0 0)"
proof -
  have a: "is_double (1 - 1 / 2 ^ 53)" by code_simp
  have b: "fmul (1 - 1 / 2 ^ 53) 500 = 500 - 1 / 2 ^ 44" by code_simp
  have c: "fadd (fmul (1 - 1 / 2 ^ 53) 500) 50 = 550" by code_simp
  show ?thesis using a b c by (simp add: coordinate_def simulation_geometry)
qed

text \<open>
  Claim C7, amended. For every \<open>r\<close> in \<open>[0, 1)\<close>, and every geometry whose
  \<open>squareSize \<ge> 0\<close>, \<open>offset\<close> and \<open>offset + squareSize\<close> are Numbers, each
  sampled coordinate lies in the closed interval \<open>[offset, offset + squareSize]\<close>.
  For the geometry of the program the upper end is excluded for every
  \<open>r \<le> 1 - 2 ^ -52\<close>, that is for every Number in \<open>[0, 1)\<close> but the largest.
\<close>

theorem coordinate_in_closed_square:
  "(0 \<le> r \<and> r < 1 \<and> 0 \<le> squareSize s \<and> is_double (squareSize s)
      \<and> is_double (offset s) \<and> is_double (offset s + squareSize s) \<longrightarrow>
      offset s \<le> coordinate s r \<and> coordinate s r \<le> offset s + squareSize s) \<and>
   (0 \<le> r \<and> r \<le> 1 - 1 / 2 ^ 52 \<and> squareSize s = 500 \<and> offset s = 50 \<longrightarrow>
      coordinate s r < offset s + squareSize s)"
  using coordinate_closed[of r s] coordinate_strict[of s r] by simp

theorem coordinate_in_closed_square_witness:
  "(0::rat) \<le> 1 - 1 / 2 ^ 52 \<and> (1 - 1 / 2 ^ 52 :: rat) < 1
   \<and> 0 \<le> squareSize (simulation 0 0) \<and> is_double (squareSize (simulation 0 0))
   \<and> is_double (offset (simulation 0 0))
   \<and> is_double (offset (simulation 0 0) + squareSize (simulation 0 0))
   \<and> squareSize (simulation 0 0) = 500 \<and> offset (simulation 0 0) = 50
   \<and> 50 \<le> coordinate (simulation 0 0) (1 - 1 / 2 ^ 52)
   \<and> coordinate (simulation 0 0) (1 - 1 / 2 ^ 52) < 550"
proof -
  let ?S = "simulation 0 0"
  have d: "is_double 500" "is_double 50" "is_double (50 + 500)" by code_simp+
  have h: "0 \<le> squareSize ?S" "is_double (squareSize ?S)" "is_double (offset ?S)"
    "is_double (offset ?S + squareSize ?S)" "squareSize ?S = 500" "offset ?S = 50"
    using d by (simp_all add: simulation_geometry)
  have r: "(0::rat) \<le> 1 - 1 / 2 ^ 52" "(1 - 1 / 2 ^ 52 :: rat) < 1"
    "(1 - 1 / 2 ^ 52 :: rat) \<le> 1 - 1 / 2 ^ 52" by simp_all
  from coordinate_in_closed_square[where s = ?S and r = "1 - 1 / 2 ^ 52"] h r
  have "offset ?S \<le> coordinate ?S (1 - 1 / 2 ^ 52)
      \<and> coordinate ?S (1 - 1 / 2 ^ 52) < offset ?S + squareSize ?S"
    by blast
  then show ?thesis using h r by simp
qed

subsection \<open>C8: malformed geometry\<close>




subsection \<open>C9: pause\<close>

text \<open>
  Claim C9. After \<open>pause\<close> the simulation is not running and the tick that
  \<open>timeoutId\<close> names is no longer pending; in a state with a single tick loop no
  timeout at all is left. From then on, whatever timeouts fire and however the slider
  and the reset button are used, no sample is recorded as long as the pause button is
  not clicked again: the simulation stays paused and the counters keep the values they
  had at the pause, or are 0 once a reset has happened. A \<open>resume\<close> restarts the
  loop and records the next sample.
\<close>

theorem paused_records_nothing:
  "\<not> isRunning (pause s) \<and>
   (timeoutId s = Some i \<longrightarrow> i \<notin> fst ` set (timers (pause s))) \<and>
   (one_loop s \<longrightarrow> timers (pause s) = []) \<and>
   (no_click evs \<longrightarrow>
      \<not> isRunning (run evs (pause s)) \<and>
      total_count (run evs (pause s)) = (if ResetClick \<in> set evs then 0 else total_count s) \<and>
      inside (run evs (pause s)) = (if ResetClick \<in> set evs then 0 else inside s)) \<and>
   isRunning (resume u v (pause s)) \<and>
   total_count (resume u v (pause s)) = fadd (total_count s) 1"
  using run_paused[of "pause s" evs] pause_cancels[of s i] one_loop_pause[of s]
  by (simp add: pause_fields resume_def animate_total animate_isRunning)

theorem paused_records_nothing_witness:
  "timeoutId (simulation 0 0) = Some 0
   \<and> timers (simulation 0 0) = [(0, 500)]
   \<and> one_loop (simulation 0 0)
   \<and> 0 \<notin> fst ` set (timers (pause (simulation 0 0)))
   \<and> timers (pause (simulation 0 0)) = []
   \<and> no_click [Timeout 0 (1 / 2) (1 / 2), SliderInput 0, Timeout 1 (1 / 2) (1 / 2)]
   \<and> total_count (run [Timeout 0 (1 / 2) (1 / 2), SliderInput 0, Timeout 1 (1 / 2) (1 / 2)]
        (pause (simulation 0 0))) = total_count (simulation 0 0)
   \<and> inside (run [Timeout 0 (1 / 2) (1 / 2), SliderInput 0, Timeout 1 (1 / 2) (1 / 2)]
        (pause (simulation 0 0))) = inside (simulation 0 0)"
proof -
  let ?evs = "[Timeout 0 (1 / 2) (1 / 2), SliderInput 0, Timeout 1 (1 / 2) (1 / 2)]"
  have h: "no_click ?evs" by simp
  have n: "ResetClick \<notin> set ?evs" by simp
  have t: "timeoutId (simulation 0 0) = Some 0" by (rule simulation_state(2))
  have l: "one_loop (simulation 0 0)" by (simp add: one_loop_def simulation_state)
  note p = paused_records_nothing[where s = "simulation 0 0" and evs = ?evs and i = 0]
  have a: "0 \<notin> fst ` set (timers (pause (simulation 0 0)))"
    and b: "timers (pause (simulation 0 0)) = []"
    using p t l by blast+
  have "total_count (run ?evs (pause (simulation 0 0)))
        = (if ResetClick \<in> set ?evs then 0 else total_count (simulation 0 0))
      \<and> inside (run ?evs (pause (simulation 0 0)))
        = (if ResetClick \<in> set ?evs then 0 else inside (simulation 0 0))"
    using p h by blast
  then have c: "total_count (run ?evs (pause (simulation 0 0))) = total_count (simulation 0 0)
      \<and> inside (run ?evs (pause (simulation 0 0))) = inside (simulation 0 0)"
    by (simp only: n if_False)
  from a b c h t l simulation_state(3)[of 0 0] show ?thesis by blast
qed

subsection \<open>C10: resume while running\<close>

text \<open>
  Claim C10. Calling \<open>resume\<close> while the simulation is running changes nothing: the
  counters, \<open>isRunning\<close>, the button label and the pending timeouts are the same, so
  no second tick loop starts; and \<open>resume\<close> after \<open>resume\<close> is a single
  \<open>resume\<close>.
\<close>

theorem resume_while_running_is_noop:
  "(isRunning s \<longrightarrow> resume u v s = s) \<and>
   resume p q (resume u v s) = resume u v s"
  by (simp add: resume_def animate_isRunning)

theorem resume_while_running_is_noop_witness:
  "isRunning (simulation 0 0)
   \<and> resume (1 / 2) (1 / 2) (simulation 0 0) = simulation 0 0
   \<and> resume (1 / 2) (1 / 2) (resume 0 0 (pause (simulation 0 0)))
       = resume 0 0 (pause (simulation 0 0))"
proof -
  have r: "isRunning (simulation 0 0)" by (rule simulation_state(1))
  from resume_while_running_is_noop[where s = "simulation 0 0" and u = "1 / 2" and v = "1 / 2"] r
  have "resume (1 / 2) (1 / 2) (simulation 0 0) = simulation 0 0" by blast
  moreover from resume_while_running_is_noop[where s = "pause (simulation 0 0)" and u = 0
      and v = 0 and p = "1 / 2" and q = "1 / 2"]
  have "resume (1 / 2) (1 / 2) (resume 0 0 (pause (simulation 0 0)))
      = resume 0 0 (pause (simulation 0 0))" by blast
  ultimately show ?thesis using r by blast
qed

end
